theory Spec2Isabelle
  imports Main "HOL-Library.Word"
begin

section \<open>Constants of main.cpp\<close>

text \<open>
  The program is a producer/consumer pipeline: one producer thread pushes generated images
  into a bounded queue, several consumer threads pop them and write them as JPEG files,
  and three atomic counters record what happened. The embedding keeps the source's names.
\<close>

type_synonym byte = "8 word"
type_synonym int32 = "32 word"
type_synonym size_t = "64 word"

definition IMAGE_WIDTH :: nat where
  "IMAGE_WIDTH = 1920"

definition IMAGE_HEIGHT :: nat where
  "IMAGE_HEIGHT = 1280"

definition outputDir :: string where
  "outputDir = ''../output''"

definition MAX_QUEUE_SIZE :: nat where
  "MAX_QUEUE_SIZE = 200"

section \<open>SafeQueue\<close>

text \<open>
  The deque is a list, oldest element first. Every method runs under the queue's mutex, so
  each is one atomic function on the list. \<open>push_cap\<close> is \<open>SafeQueue::push\<close> with the
  capacity as a parameter; the program's \<open>push\<close> is its instance at \<open>MAX_QUEUE_SIZE\<close>.
  \<open>pop_front\<close> is \<open>tl\<close>: it is reached only when \<open>length q \<ge> cap\<close>, so for a
  positive capacity never on an empty deque (where the source would be undefined).
\<close>

definition push_cap :: "nat \<Rightarrow> 'a list \<Rightarrow> 'a \<Rightarrow> 'a list" where
  "push_cap cap q v = (if length q \<ge> cap then tl q else q) @ [v]"

definition push :: "'a list \<Rightarrow> 'a \<Rightarrow> 'a list" where
  "push q v = push_cap MAX_QUEUE_SIZE q v"

text \<open>
  \<open>SafeQueue::pop\<close>. The condition variable waits until the queue is non-empty or the
  running flag is false; a call that would wait (empty queue, flag still true) does not
  return, which is the result \<open>None\<close>. A call that returns gives the boolean result, the
  content of the reference parameter \<open>val\<close> afterwards, and the remaining queue.
\<close>

definition pop :: "'a list \<Rightarrow> 'a \<Rightarrow> bool \<Rightarrow> (bool \<times> 'a \<times> 'a list) option" where
  "pop q val running =
     (case q of
        [] \<Rightarrow> if running then None else Some (False, val, [])
      | x # q' \<Rightarrow> Some (True, x, q'))"

text \<open>
  \<open>n\<close> calls of \<open>pop\<close> one after the other (the mutex serialises the calls of all
  consumers), with the flag unchanged: the list of boolean results and popped values, and the
  queue that is left. \<open>None\<close> when one of the calls waits.
\<close>

fun pops :: "nat \<Rightarrow> 'a list \<Rightarrow> 'a \<Rightarrow> bool \<Rightarrow> ((bool \<times> 'a) list \<times> 'a list) option" where
  "pops 0 q val running = Some ([], q)"
| "pops (Suc n) q val running =
     (case pop q val running of
        None \<Rightarrow> None
      | Some (ok, val', q') \<Rightarrow>
          (case pops n q' val' running of
             None \<Rightarrow> None
           | Some (rs, q'') \<Rightarrow> Some ((ok, val') # rs, q'')))"

text \<open>Queue operations as data, to run arbitrary sequences of them.\<close>

datatype 'a queue_op = Push 'a | Pop 'a bool

fun apply_op :: "'a list \<Rightarrow> 'a queue_op \<Rightarrow> 'a list" where
  "apply_op q (Push v) = push q v"
| "apply_op q (Pop val running) =
     (case pop q val running of
        None \<Rightarrow> q
      | Some (ok, val', q') \<Rightarrow> q')"

section \<open>Atomic counters and file names\<close>

text \<open>
  \<open>std::atomic<int>\<close> is a 32-bit word and \<open>std::atomic<size_t>\<close> a 64-bit word:
  \<open>fetch_add\<close> wraps around (it is defined to, also for the signed type). It returns the
  value before the addition, paired here with the new content.
\<close>

definition fetch_add :: "'w::len word \<Rightarrow> 'w word \<Rightarrow> 'w word \<times> 'w word" where
  "fetch_add c n = (c, c + n)"

text \<open>\<open>std::to_string(int)\<close>: decimal digits, with a minus sign for a negative value.\<close>

definition digit_char :: "nat \<Rightarrow> char" where
  "digit_char d = ''0123456789'' ! d"

fun dec :: "nat \<Rightarrow> string" where
  "dec n = (if n < 10 then [digit_char n] else dec (n div 10) @ [digit_char (n mod 10)])"

declare dec.simps [simp del]

definition to_string :: "int \<Rightarrow> string" where
  "to_string i = (if i < 0 then CHR ''-'' # dec (nat (- i)) else dec (nat i))"

definition filename :: "int32 \<Rightarrow> string" where
  "filename index = outputDir @ ''/img_'' @ to_string (sint index) @ ''.jpg''"

section \<open>The threads\<close>

text \<open>
  An image is its dimensions and its pixel bytes; \<open>cv::Mat img;\<close> declares the empty one.
\<close>

datatype Mat = Mat (rows: nat) (cols: nat) (pixels: "byte list")

definition empty_Mat :: Mat where
  "empty_Mat = Mat 0 0 []"

text \<open>
  Where each thread stands. The producer is at the head of its loop (about to load the
  running flag), about to push the image it generated, about to count it, or has left the
  loop. A consumer is about to pop, holds a popped image and is about to take its index,
  holds image and file name and is about to encode and write, or has left its loop.
\<close>

datatype producer_pc = P_loop | P_push | P_count | P_done

datatype consumer_pc = W_pop | W_index Mat | W_sink Mat string | W_done

record state =
  queue :: "Mat list"
  running :: bool
  imagesGenerated :: int32
  imagesSaved :: int32
  totalBytesWritten :: size_t
  producer :: producer_pc
  consumers :: "consumer_pc list"

text \<open>
  Lines 157 to 164 of \<open>imageConsumer\<close> on the byte counter: \<open>enc\<close> is the result of
  \<open>cv::imencode\<close> (\<open>None\<close> when it returns false, otherwise the encoded buffer) and
  \<open>opened\<close> says whether the output stream opened. Both come from outside the program.
\<close>

definition save_image :: "byte list option \<Rightarrow> bool \<Rightarrow> size_t \<Rightarrow> size_t" where
  "save_image enc opened written =
     (case enc of
        None \<Rightarrow> written
      | Some buffer \<Rightarrow>
          if opened then snd (fetch_add written (of_nat (length buffer))) else written)"

text \<open>
  The atomic actions of the run. Each action on shared data is atomic in the source (an
  operation on an atomic variable, or a queue method under the mutex), so a run is an
  interleaving of them. The image a push carries and the outcome of encoding and opening
  are chosen by the environment. Sleeping and printing do not touch the shared data and are
  left out; the main thread's only action on it is to clear the running flag.
  \<^item> \<open>MainStop\<close>: \<open>running.store(false)\<close> in \<open>main\<close> (line 224).
  \<^item> \<open>ProducerLoad\<close>: the loop test \<open>running.load()\<close> of \<open>imageProducer\<close> (line 119).
  \<^item> \<open>ProducerPush img\<close>: \<open>imageQueue.push\<close> of the generated image (lines 121 to 123).
  \<^item> \<open>ProducerFetchAdd\<close>: \<open>imagesGenerated.fetch_add(1)\<close> (line 124).
  \<^item> \<open>ConsumerPop i\<close>: \<open>imageQueue.pop(img, running)\<close> of consumer \<open>i\<close>, which leaves
    the loop on the result false (lines 149 to 152). A pop that waits is not enabled.
  \<^item> \<open>ConsumerFetchAdd i\<close>: \<open>imagesSaved.fetch_add(1)\<close>, whose result is the index in
    the file name (lines 154 and 155).
  \<^item> \<open>ConsumerSave i enc opened\<close>: encoding, opening, writing and
    \<open>totalBytesWritten.fetch_add\<close> (lines 157 to 164).

  The counters are updated with relaxed memory order. What is proved below concerns each
  counter's own sequence of updates and the values read after the joins, for which the
  interleaving of atomic actions is exact. A consumer that misses a wake-up simply takes
  no further action, so every behaviour of the program is a run of this model.
\<close>

datatype event =
    MainStop
  | ProducerLoad
  | ProducerPush Mat
  | ProducerFetchAdd
  | ConsumerPop nat
  | ConsumerFetchAdd nat
  | ConsumerSave nat "byte list option" bool

fun step :: "event \<Rightarrow> state \<Rightarrow> state option" where
  "step MainStop s = Some (s\<lparr>running := False\<rparr>)"
| "step ProducerLoad s =
     (if producer s = P_loop
      then Some (s\<lparr>producer := (if running s then P_push else P_done)\<rparr>)
      else None)"
| "step (ProducerPush img) s =
     (if producer s = P_push
      then Some (s\<lparr>queue := push (queue s) img, producer := P_count\<rparr>)
      else None)"
| "step ProducerFetchAdd s =
     (if producer s = P_count
      then Some (s\<lparr>imagesGenerated := snd (fetch_add (imagesGenerated s) 1),
                    producer := P_loop\<rparr>)
      else None)"
| "step (ConsumerPop i) s =
     (if i < length (consumers s) \<and> consumers s ! i = W_pop
      then (case pop (queue s) empty_Mat (running s) of
              None \<Rightarrow> None
            | Some (ok, img, q') \<Rightarrow>
                Some (s\<lparr>queue := q',
                        consumers := (consumers s)[i := (if ok then W_index img else W_done)]\<rparr>))
      else None)"
| "step (ConsumerFetchAdd i) s =
     (if i < length (consumers s)
      then (case consumers s ! i of
              W_index img \<Rightarrow>
                (case fetch_add (imagesSaved s) 1 of
                   (index, c) \<Rightarrow>
                     Some (s\<lparr>imagesSaved := c,
                             consumers := (consumers s)[i := W_sink img (filename index)]\<rparr>))
            | _ \<Rightarrow> None)
      else None)"
| "step (ConsumerSave i enc opened) s =
     (if i < length (consumers s)
      then (case consumers s ! i of
              W_sink img file \<Rightarrow>
                Some (s\<lparr>totalBytesWritten := save_image enc opened (totalBytesWritten s),
                        consumers := (consumers s)[i := W_pop]\<rparr>)
            | _ \<Rightarrow> None)
      else None)"

text \<open>A run: the actions in the order they take effect. \<open>None\<close> when one is not enabled.\<close>

fun run :: "event list \<Rightarrow> state \<Rightarrow> state option" where
  "run [] s = Some s"
| "run (e # es) s = (case step e s of None \<Rightarrow> None | Some s' \<Rightarrow> run es s')"

text \<open>The indices handed out along a run, in order: what each \<open>fetch_add\<close> on
  \<open>imagesSaved\<close> returned.\<close>

fun assigned :: "event list \<Rightarrow> state \<Rightarrow> int32 list" where
  "assigned [] s = []"
| "assigned (e # es) s =
     (case step e s of
        None \<Rightarrow> []
      | Some s' \<Rightarrow>
          (case e of
             ConsumerFetchAdd i \<Rightarrow> [fst (fetch_add (imagesSaved s) 1)]
           | _ \<Rightarrow> []) @ assigned es s')"

text \<open>The state when the threads start, with \<open>n\<close> consumers.\<close>

definition init :: "nat \<Rightarrow> state" where
  "init n =
     \<lparr>queue = [], running = True, imagesGenerated = 0, imagesSaved = 0,
      totalBytesWritten = 0, producer = P_loop, consumers = replicate n W_pop\<rparr>"

text \<open>All threads have left their loops: the joins of \<open>main\<close> return.\<close>

definition joined :: "state \<Rightarrow> bool" where
  "joined s = (producer s = P_done \<and> list_all (\<lambda>c. c = W_done) (consumers s))"

text \<open>Counts along a run: images pushed, and bytes handed to a successfully opened file.\<close>

fun is_push :: "event \<Rightarrow> bool" where
  "is_push (ProducerPush img) = True"
| "is_push e = False"

fun is_count :: "event \<Rightarrow> bool" where
  "is_count ProducerFetchAdd = True"
| "is_count e = False"

fun is_index :: "event \<Rightarrow> bool" where
  "is_index (ConsumerFetchAdd i) = True"
| "is_index e = False"

fun bytes_of :: "event \<Rightarrow> nat" where
  "bytes_of (ConsumerSave i (Some buffer) True) = length buffer"
| "bytes_of e = 0"

definition pushes :: "event list \<Rightarrow> nat" where
  "pushes es = length (filter is_push es)"

definition total_bytes :: "event list \<Rightarrow> nat" where
  "total_bytes es = sum_list (map bytes_of es)"

definition counted :: "event list \<Rightarrow> nat" where
  "counted es = length (filter is_count es)"

definition indexed :: "event list \<Rightarrow> nat" where
  "indexed es = length (filter is_index es)"

text \<open>
  Work in flight: an image pushed but not yet counted by the producer, and images popped
  but not yet given an index by their consumer.
\<close>

definition uncounted :: "state \<Rightarrow> nat" where
  "uncounted s = (if producer s = P_count then 1 else 0)"

fun holds_image :: "consumer_pc \<Rightarrow> bool" where
  "holds_image (W_index img) = True"
| "holds_image c = False"

definition unindexed :: "state \<Rightarrow> nat" where
  "unindexed s = length (filter holds_image (consumers s))"

text \<open>
  One turn of the producer's loop, and one of a consumer's. \<open>blank\<close> is an image of the
  size \<open>generateRandomImage\<close> returns.
\<close>

definition blank :: Mat where
  "blank = Mat IMAGE_HEIGHT IMAGE_WIDTH (replicate (IMAGE_HEIGHT * IMAGE_WIDTH * 3) 0)"

definition produce :: "Mat \<Rightarrow> event list" where
  "produce img = [ProducerLoad, ProducerPush img, ProducerFetchAdd]"

definition consume :: "nat \<Rightarrow> byte list option \<Rightarrow> bool \<Rightarrow> event list" where
  "consume i enc opened = [ConsumerPop i, ConsumerFetchAdd i, ConsumerSave i enc opened]"

text \<open>
  The state of a run with one consumer between two rounds: the queue is empty again and
  both threads are at the head of their loops. A round is one turn of the producer
  followed by one of the consumer; \<open>turn\<close> is a round whose save succeeds, with a
  four-byte buffer.
\<close>

definition idle :: "int32 \<Rightarrow> int32 \<Rightarrow> size_t \<Rightarrow> state" where
  "idle g v w =
     \<lparr>queue = [], running = True, imagesGenerated = g, imagesSaved = v,
      totalBytesWritten = w, producer = P_loop, consumers = [W_pop]\<rparr>"

definition turn :: "event list" where
  "turn = produce blank @ consume 0 (Some [255, 216, 255, 217]) True"

text \<open>
  Two states of a run with one consumer in which only the producer has worked: after
  \<open>2147483647\<close> turns of its loop, and one turn later.
\<close>

definition before_wrap :: state where
  "before_wrap =
     \<lparr>queue = replicate 200 blank, running = True, imagesGenerated = 2147483647,
      imagesSaved = 0, totalBytesWritten = 0, producer = P_loop, consumers = [W_pop]\<rparr>"

definition after_wrap :: state where
  "after_wrap =
     \<lparr>queue = replicate 200 blank, running = True, imagesGenerated = 2147483648,
      imagesSaved = 0, totalBytesWritten = 0, producer = P_loop, consumers = [W_pop]\<rparr>"

section \<open>The producer's pacing\<close>

text \<open>
  C++ integer division truncates towards zero. Times are counts of nanoseconds, the tick
  of \<open>steady_clock\<close>; \<open>milliseconds m\<close> added to a time point is \<open>m * 1000000\<close> ticks.
\<close>

definition cdiv :: "int \<Rightarrow> int \<Rightarrow> int" where
  "cdiv a b = sgn a * sgn b * (\<bar>a\<bar> div \<bar>b\<bar>)"

definition interval_ms :: "int \<Rightarrow> int" where
  "interval_ms fps = cdiv 1000 fps"

definition ns_of_ms :: "int \<Rightarrow> int" where
  "ns_of_ms m = m * 1000000"

definition second_ns :: int where
  "second_ns = 1000000000"

definition interval :: "int \<Rightarrow> int" where
  "interval fps = ns_of_ms (interval_ms fps)"

text \<open>The time point passed to \<open>sleep_until\<close> by an iteration that started at \<open>start\<close>.\<close>

definition wake_time :: "int \<Rightarrow> int \<Rightarrow> int" where
  "wake_time fps start = start + interval fps"

text \<open>
  When the iteration ends, if its work took \<open>work\<close> nanoseconds: \<open>sleep_until\<close> returns at
  once when the time point has passed.
\<close>

definition iteration_end :: "int \<Rightarrow> int \<Rightarrow> int \<Rightarrow> int" where
  "iteration_end fps start work = max (start + work) (wake_time fps start)"

section \<open>Start-up in main\<close>

text \<open>
  \<open>main\<close> up to the point where it spawns the threads (lines 178 to 221). \<open>argv\<close>
  includes the program name, so \<open>argc\<close> is its length. \<open>atoi\<close> is the C library's and is
  a parameter.

  Between the checks and the first thread \<open>main\<close> prepares the output directory (lines 208
  to 213) with \<open>fs::exists\<close>, \<open>fs::remove_all\<close> and \<open>fs::create_directories\<close>. Each of
  them throws \<open>filesystem_error\<close> when the operating system refuses, and \<open>main\<close> catches
  nothing, so a throw ends the program through \<open>std::terminate\<close> before any thread
  exists. What the file system answers is a parameter: whether \<open>fs::exists\<close> returns (and
  what) or throws, and whether the other two calls return.
\<close>

record filesystem =
  exists_outputDir :: "bool option"
  remove_all_ok :: bool
  create_directories_ok :: bool

text \<open>Lines 208 to 213: true when all calls made return, false when one throws.\<close>

definition prepare_output :: "filesystem \<Rightarrow> bool" where
  "prepare_output fs =
     (case exists_outputDir fs of
        None \<Rightarrow> False
      | Some present \<Rightarrow>
          (if present then remove_all_ok fs else True) \<and> create_directories_ok fs)"

text \<open>
  An early \<open>return 1\<close> and the termination by an uncaught exception are error values;
  otherwise the three globals are set and \<open>main\<close> spawns the threads with them. Only a
  return has an exit code; a terminated program has no return value of \<open>main\<close>.
\<close>

datatype startup_error = Usage | NotPositive | TooManyConsumers | DirectoryFailed

fun exit_code :: "startup_error \<Rightarrow> int option" where
  "exit_code DirectoryFailed = None"
| "exit_code e = Some 1"

record config =
  DURATION_SECONDS :: int
  TARGET_FPS :: int
  NUM_CONSUMERS :: int

definition main :: "(string \<Rightarrow> int) \<Rightarrow> filesystem \<Rightarrow> string list \<Rightarrow> startup_error + config" where
  "main atoi fs argv =
     (if length argv \<noteq> 4 then Inl Usage
      else
        let dur = atoi (argv ! 1); fps = atoi (argv ! 2); consumers = atoi (argv ! 3) in
        if dur \<le> 0 \<or> fps \<le> 0 \<or> consumers \<le> 0 then Inl NotPositive
        else if consumers > 7 then Inl TooManyConsumers
        else if \<not> prepare_output fs then Inl DirectoryFailed
        else Inr \<lparr>DURATION_SECONDS = dur, TARGET_FPS = fps, NUM_CONSUMERS = consumers\<rparr>)"

text \<open>
  Threads spawned by lines 217 to 221: none when \<open>main\<close> has returned or the program was
  terminated before them, else the producer and \<open>NUM_CONSUMERS\<close> consumers.
\<close>

definition threads_spawned :: "startup_error + config \<Rightarrow> nat" where
  "threads_spawned r = (case r of Inl e \<Rightarrow> 0 | Inr cfg \<Rightarrow> 1 + nat (NUM_CONSUMERS cfg))"

text \<open>
  Inputs for examples: an \<open>atoi\<close> given by a table of the strings it is applied to, a file
  system in which the output directory does not exist yet and can be created, and one in
  which it cannot be created (the parent directory is not writable).
\<close>

definition atoi_table :: "(string \<times> int) list \<Rightarrow> string \<Rightarrow> int" where
  "atoi_table t a = (case map_of t a of None \<Rightarrow> 0 | Some n \<Rightarrow> n)"

definition writable_fs :: filesystem where
  "writable_fs = \<lparr>exists_outputDir = Some False, remove_all_ok = True, create_directories_ok = True\<rparr>"

definition readonly_fs :: filesystem where
  "readonly_fs = \<lparr>exists_outputDir = Some False, remove_all_ok = True, create_directories_ok = False\<rparr>"

section \<open>Properties of the queue\<close>

lemma length_push_cap:
  "0 < cap \<Longrightarrow> length q \<le> cap \<Longrightarrow> length (push_cap cap q v) \<le> cap"
  by (cases q) (auto simp: push_cap_def)

lemma foldl_push_cap:
  assumes "0 < cap" "length q \<le> cap"
  shows "foldl (push_cap cap) q xs = drop (length (q @ xs) - cap) (q @ xs)"
  using assms
proof (induction xs arbitrary: q)
  case Nil
  then show ?case by simp
next
  case (Cons x xs)
  have len: "length (push_cap cap q x) \<le> cap"
    using Cons.prems by (rule length_push_cap)
  show ?case
  proof (cases "length q < cap")
    case True
    then have "push_cap cap q x = q @ [x]" by (simp add: push_cap_def)
    with Cons.IH [OF Cons.prems(1) len] show ?thesis by simp
  next
    case False
    with Cons.prems have eq: "length q = cap" by simp
    with Cons.prems obtain y q' where q: "q = y # q'" by (cases q) auto
    have p: "push_cap cap q x = q' @ [x]" using eq q by (simp add: push_cap_def)
    have a: "length ((q' @ [x]) @ xs) - cap = length xs" using eq q by simp
    have b: "length (q @ x # xs) - cap = Suc (length xs)" using eq q by simp
    have "foldl (push_cap cap) (q' @ [x]) xs = drop (length xs) ((q' @ [x]) @ xs)"
      using Cons.IH [OF Cons.prems(1) len] unfolding p a .
    also have "\<dots> = drop (Suc (length xs)) (q @ x # xs)"
      unfolding q by (simp del: drop_append)
    finally show ?thesis using p b by simp
  qed
qed

lemma foldl_push_cap_last:
  assumes "0 < cap" "length q \<le> cap" "cap \<le> length xs"
  shows "foldl (push_cap cap) q xs = drop (length xs - cap) xs"
  using assms by (simp add: foldl_push_cap)

lemma length_push: "length q \<le> MAX_QUEUE_SIZE \<Longrightarrow> length (push q v) \<le> MAX_QUEUE_SIZE"
  unfolding push_def by (rule length_push_cap) (simp_all add: MAX_QUEUE_SIZE_def)

lemma length_pop: "pop q val r = Some (ok, v, q') \<Longrightarrow> length q' \<le> length q"
  by (auto simp: pop_def split: list.splits if_splits)

lemma length_apply_op:
  "length q \<le> MAX_QUEUE_SIZE \<Longrightarrow> length (apply_op q op) \<le> MAX_QUEUE_SIZE"
proof (cases op)
  case (Push v)
  assume "length q \<le> MAX_QUEUE_SIZE"
  with Push show ?thesis by (simp add: length_push)
next
  case (Pop val r)
  assume le: "length q \<le> MAX_QUEUE_SIZE"
  show ?thesis
  proof (cases "pop q val r")
    case None
    with Pop le show ?thesis by simp
  next
    case (Some res)
    obtain ok v q' where "res = (ok, v, q')" by (cases res)
    with Some Pop le length_pop [of q val r ok v q'] show ?thesis by simp
  qed
qed

lemma length_foldl_apply_op:
  "length q \<le> MAX_QUEUE_SIZE \<Longrightarrow> length (foldl apply_op q ops) \<le> MAX_QUEUE_SIZE"
  by (induction ops arbitrary: q) (simp_all add: length_apply_op)

lemma pops_closed:
  "pops (length q + m) q val False =
     Some (map (\<lambda>x. (True, x)) q @ replicate m (False, last (val # q)), [])"
proof (induction q arbitrary: val)
  case Nil
  show ?case by (induction m) (simp_all add: pop_def)
next
  case (Cons x q)
  from Cons [of x] show ?case by (simp add: pop_def)
qed

text \<open>
  Claim C2. \<open>pop\<close> returns false exactly when the running flag is false and the queue
  is empty. On a closed channel that is not empty it removes and returns the oldest element
  with result true. So a closed channel holding \<open>k\<close> items gives exactly \<open>k\<close>
  successful pops, in queue order, and every later pop returns false.
\<close>
theorem pop_false_iff_closed_and_empty:
  "((\<exists>v q'. pop q val r = Some (False, v, q')) \<longleftrightarrow> (\<not> r \<and> q = [])) \<and>
   pop (x # q) val False = Some (True, x, q) \<and>
   pops (length q + m) q val False =
     Some (map (\<lambda>x. (True, x)) q @ replicate m (False, last (val # q)), [])"
proof -
  have "(\<exists>v q'. pop q val r = Some (False, v, q')) \<longleftrightarrow> (\<not> r \<and> q = [])"
    by (cases q) (simp_all add: pop_def)
  moreover have "pop (x # q) val False = Some (True, x, q)"
    by (simp add: pop_def)
  ultimately show ?thesis using pops_closed [of q m val] by blast
qed

theorem pop_false_iff_closed_and_empty_witness:
  "pop ([]::nat list) 0 False = Some (False, 0, []) \<and>
   pop [] (0::nat) True = None \<and>
   pop [5, 6] (0::nat) False = Some (True, 5, [6]) \<and>
   pops 4 [5, 6, 7] (0::nat) False = Some ([(True, 5), (True, 6), (True, 7), (False, 7)], [])"
  using pop_false_iff_closed_and_empty [of "[5, 6, 7]" "0::nat" False 5 1]
    pop_false_iff_closed_and_empty [of "[]" "0::nat" True 5 1]
    pop_false_iff_closed_and_empty [of "[6]" "0::nat" False 5 0]
  by (simp add: pop_def eval_nat_numeral)

text \<open>
  Claim C3. For a positive capacity \<open>C\<close>, pushing more than \<open>C\<close> items with no pop in
  between, onto a queue within capacity, leaves exactly the last \<open>C\<close> pushed items in
  their push order; in particular for the program's capacity \<open>MAX_QUEUE_SIZE\<close>.
\<close>
theorem push_keeps_last_capacity_items:
  "(0 < C \<and> length q \<le> C \<and> C < length xs \<longrightarrow>
      foldl (push_cap C) q xs = drop (length xs - C) xs \<and>
      length (foldl (push_cap C) q xs) = C) \<and>
   (length q \<le> MAX_QUEUE_SIZE \<and> MAX_QUEUE_SIZE < length xs \<longrightarrow>
      foldl push q xs = drop (length xs - MAX_QUEUE_SIZE) xs)"
proof -
  have "foldl push q xs = foldl (push_cap MAX_QUEUE_SIZE) q xs"
    by (simp add: push_def [abs_def])
  moreover have "0 < MAX_QUEUE_SIZE"
    by (simp add: MAX_QUEUE_SIZE_def)
  ultimately show ?thesis
    by (simp add: foldl_push_cap_last)
qed

theorem push_keeps_last_capacity_items_witness:
  "foldl (push_cap 3) [] ''ABCDE'' = ''CDE'' \<and>
   foldl push [] (replicate 201 (0::nat)) = replicate 200 0"
  using push_keeps_last_capacity_items [of 3 "[]" "''ABCDE''"]
    push_keeps_last_capacity_items [of 200 "[]" "replicate 201 (0::nat)"]
  by (simp add: MAX_QUEUE_SIZE_def)

text \<open>
  Claim C9. Below capacity \<open>push\<close> appends the new item and leaves the existing elements
  as they are, so the length grows by one. At capacity it removes only the oldest element,
  keeps the others in order and appends the new item, so the length stays.
\<close>
theorem push_frame:
  "(length q < MAX_QUEUE_SIZE \<longrightarrow>
      push q v = q @ [v] \<and> length (push q v) = length q + 1) \<and>
   (length q \<ge> MAX_QUEUE_SIZE \<longrightarrow>
      (\<exists>oldest rest. q = oldest # rest \<and> push q v = rest @ [v]) \<and>
      length (push q v) = length q)"
proof -
  have "\<exists>oldest rest. q = oldest # rest" if "length q \<ge> MAX_QUEUE_SIZE"
    using that by (cases q) (simp_all add: MAX_QUEUE_SIZE_def)
  then show ?thesis
    by (auto simp: push_def push_cap_def)
qed

theorem push_frame_witness:
  "push [1, 2, 3] (4::nat) = [1, 2, 3, 4] \<and>
   push (replicate 200 (7::nat)) 8 = replicate 199 7 @ [8]"
proof -
  have "replicate 200 (7::nat) = 7 # replicate 199 7"
    by (simp flip: replicate_Suc)
  then show ?thesis
    using push_frame [of "[1, 2, 3]" "4::nat"] push_frame [of "replicate 200 (7::nat)" 8]
    by (simp add: MAX_QUEUE_SIZE_def)
qed

section \<open>Runs of the threads\<close>

text \<open>What one action does to the queue, the counters and the work in flight, and what
  a run does.\<close>

lemma length_filter_update:
  "i < length xs \<Longrightarrow>
     length (filter P (xs[i := y])) + (if P (xs ! i) then 1 else 0) =
     length (filter P xs) + (if P y then 1 else 0)"
proof (induction xs arbitrary: i)
  case Nil
  then show ?case by simp
next
  case (Cons x xs)
  then show ?case by (cases i) auto
qed

lemma run_append:
  "run (es @ fs) s = (case run es s of None \<Rightarrow> None | Some s' \<Rightarrow> run fs s')"
  by (induction es arbitrary: s) (auto split: option.splits)

lemma step_queue_length:
  assumes "step e s = Some s'" "length (queue s) \<le> MAX_QUEUE_SIZE"
  shows "length (queue s') \<le> MAX_QUEUE_SIZE"
proof (cases e)
  case (ProducerPush img)
  with assms show ?thesis by (auto simp: length_push split: if_splits)
next
  case (ConsumerPop i)
  with assms show ?thesis
    by (auto split: if_splits option.splits dest!: length_pop)
qed (use assms in \<open>auto simp: fetch_add_def split: if_splits consumer_pc.splits\<close>)

lemma run_queue_length:
  "run es s = Some s' \<Longrightarrow> length (queue s) \<le> MAX_QUEUE_SIZE \<Longrightarrow>
     length (queue s') \<le> MAX_QUEUE_SIZE"
proof (induction es arbitrary: s)
  case Nil
  then show ?case by simp
next
  case (Cons e es)
  then show ?case
    by (auto split: option.splits dest: step_queue_length)
qed

lemma step_generated:
  "step e s = Some s' \<Longrightarrow>
     imagesGenerated s' = imagesGenerated s + (if is_count e then 1 else 0)"
  by (cases e) (auto simp: fetch_add_def split: if_splits option.splits consumer_pc.splits)

lemma step_saved:
  "step e s = Some s' \<Longrightarrow>
     imagesSaved s' = imagesSaved s + (if is_index e then 1 else 0)"
  by (cases e) (auto simp: fetch_add_def split: if_splits option.splits consumer_pc.splits)

lemma save_image_bytes:
  "save_image enc opened w = w + of_nat (bytes_of (ConsumerSave i enc opened))"
  by (cases enc; cases opened) (simp_all add: save_image_def fetch_add_def)

lemma step_bytes:
  "step e s = Some s' \<Longrightarrow>
     totalBytesWritten s' = totalBytesWritten s + of_nat (bytes_of e)"
proof (cases e)
  case (ConsumerSave i enc opened)
  assume "step e s = Some s'"
  with ConsumerSave show ?thesis
    using save_image_bytes [of enc opened "totalBytesWritten s" i]
    by (auto split: if_splits consumer_pc.splits)
qed (auto simp: fetch_add_def split: if_splits option.splits consumer_pc.splits)

lemma run_generated:
  "run es s = Some s' \<Longrightarrow> imagesGenerated s' = imagesGenerated s + of_nat (counted es)"
proof (induction es arbitrary: s)
  case Nil
  then show ?case by (simp add: counted_def)
next
  case (Cons e es)
  then obtain s1 where s1: "step e s = Some s1" "run es s1 = Some s'"
    by (auto split: option.splits)
  from Cons.IH [OF s1(2)] step_generated [OF s1(1)] show ?case
    by (simp add: counted_def)
qed

lemma run_saved:
  "run es s = Some s' \<Longrightarrow> imagesSaved s' = imagesSaved s + of_nat (indexed es)"
proof (induction es arbitrary: s)
  case Nil
  then show ?case by (simp add: indexed_def)
next
  case (Cons e es)
  then obtain s1 where s1: "step e s = Some s1" "run es s1 = Some s'"
    by (auto split: option.splits)
  from Cons.IH [OF s1(2)] step_saved [OF s1(1)] show ?case
    by (simp add: indexed_def)
qed

lemma run_bytes:
  "run es s = Some s' \<Longrightarrow>
     totalBytesWritten s' = totalBytesWritten s + of_nat (total_bytes es)"
proof (induction es arbitrary: s)
  case Nil
  then show ?case by (simp add: total_bytes_def)
next
  case (Cons e es)
  then obtain s1 where s1: "step e s = Some s1" "run es s1 = Some s'"
    by (auto split: option.splits)
  from Cons.IH [OF s1(2)] step_bytes [OF s1(1)] show ?case
    by (simp add: total_bytes_def)
qed

lemma step_uncounted:
  "step e s = Some s' \<Longrightarrow>
     uncounted s' + (if is_count e then 1 else 0) = uncounted s + (if is_push e then 1 else 0)"
  by (cases e)
    (auto simp: uncounted_def fetch_add_def split: if_splits option.splits consumer_pc.splits)

lemma step_unindexed:
  assumes "step e s = Some s'"
  shows "unindexed s' + length (queue s') + (if is_index e then 1 else 0) \<le>
         unindexed s + length (queue s) + (if is_push e then 1 else 0)"
proof (cases e)
  case MainStop
  with assms show ?thesis by (auto simp: unindexed_def)
next
  case ProducerLoad
  with assms show ?thesis by (auto simp: unindexed_def split: if_splits)
next
  case (ProducerPush img)
  with assms show ?thesis
    by (auto simp: unindexed_def push_def push_cap_def split: if_splits)
next
  case ProducerFetchAdd
  with assms show ?thesis by (auto simp: unindexed_def split: if_splits)
next
  case (ConsumerPop i)
  with assms have i: "i < length (consumers s)" "consumers s ! i = W_pop"
    by (auto split: if_splits)
  from assms ConsumerPop i obtain ok img q' where
    p: "pop (queue s) empty_Mat (running s) = Some (ok, img, q')" and
    s': "s' = s\<lparr>queue := q', consumers := (consumers s)[i := (if ok then W_index img else W_done)]\<rparr>"
    by (auto split: option.splits)
  from p have "length q' + (if ok then 1 else 0) = length (queue s)"
    by (auto simp: pop_def split: list.splits if_splits)
  with length_filter_update [OF i(1), of holds_image "if ok then W_index img else W_done"] i(2) s' ConsumerPop
  show ?thesis by (auto simp: unindexed_def split: if_splits)
next
  case (ConsumerFetchAdd i)
  with assms obtain img where i: "i < length (consumers s)" "consumers s ! i = W_index img"
    by (auto split: if_splits consumer_pc.splits)
  with assms ConsumerFetchAdd
    length_filter_update [OF i(1), of holds_image "W_sink img (filename (imagesSaved s))"]
  show ?thesis by (auto simp: unindexed_def fetch_add_def)
next
  case (ConsumerSave i enc opened)
  with assms obtain img fname where i: "i < length (consumers s)" "consumers s ! i = W_sink img fname"
    by (auto split: if_splits consumer_pc.splits)
  with assms ConsumerSave length_filter_update [OF i(1), of holds_image W_pop]
  show ?thesis by (auto simp: unindexed_def)
qed

lemma run_uncounted:
  "run es s = Some s' \<Longrightarrow> uncounted s' + counted es = uncounted s + pushes es"
proof (induction es arbitrary: s)
  case Nil
  then show ?case by (simp add: counted_def pushes_def)
next
  case (Cons e es)
  then obtain s1 where s1: "step e s = Some s1" "run es s1 = Some s'"
    by (auto split: option.splits)
  from Cons.IH [OF s1(2)] step_uncounted [OF s1(1)] show ?case
    by (simp add: counted_def pushes_def split: if_splits)
qed

lemma run_unindexed:
  "run es s = Some s' \<Longrightarrow>
     unindexed s' + length (queue s') + indexed es \<le> unindexed s + length (queue s) + pushes es"
proof (induction es arbitrary: s)
  case Nil
  then show ?case by (simp add: indexed_def pushes_def)
next
  case (Cons e es)
  then obtain s1 where s1: "step e s = Some s1" "run es s1 = Some s'"
    by (auto split: option.splits)
  from Cons.IH [OF s1(2)] step_unindexed [OF s1(1)] show ?case
    by (simp add: indexed_def pushes_def split: if_splits)
qed

lemma init_idle: "uncounted (init n) = 0" "unindexed (init n) = 0" "queue (init n) = []"
  by (simp_all add: uncounted_def unindexed_def init_def)

lemma indexed_le_pushes:
  "run es (init n) = Some s \<Longrightarrow> indexed es \<le> pushes es"
  using run_unindexed [of es "init n" s] by (simp add: init_idle)

lemma joined_indexed_le_counted:
  assumes "run es (init n) = Some s" "joined s"
  shows "indexed es \<le> counted es"
proof -
  from assms(2) have "uncounted s = 0" by (simp add: joined_def uncounted_def)
  with run_uncounted [OF assms(1)] have "counted es = pushes es" by (simp add: init_idle)
  with indexed_le_pushes [OF assms(1)] show ?thesis by simp
qed

text \<open>
  Claim C4. The queue never holds more than \<open>MAX_QUEUE_SIZE\<close> elements: \<open>push\<close> and
  \<open>pop\<close> preserve the bound, so it holds after every sequence of queue operations from
  the empty queue, and in every state a run of the threads reaches.
\<close>
theorem queue_never_exceeds_capacity:
  "(length q \<le> MAX_QUEUE_SIZE \<longrightarrow> length (push q v) \<le> MAX_QUEUE_SIZE) \<and>
   (length q \<le> MAX_QUEUE_SIZE \<and> pop q val r = Some (ok, v', q') \<longrightarrow>
      length q' \<le> MAX_QUEUE_SIZE) \<and>
   length (foldl apply_op [] ops) \<le> MAX_QUEUE_SIZE \<and>
   (run es (init n) = Some s \<longrightarrow> length (queue s) \<le> MAX_QUEUE_SIZE)"
proof -
  have "length q' \<le> MAX_QUEUE_SIZE"
    if "length q \<le> MAX_QUEUE_SIZE" "pop q val r = Some (ok, v', q')"
    using length_pop [OF that(2)] that(1) by simp
  moreover have "length (foldl apply_op [] ops) \<le> MAX_QUEUE_SIZE"
    by (rule length_foldl_apply_op) simp
  moreover have "length (queue s) \<le> MAX_QUEUE_SIZE" if "run es (init n) = Some s"
    using run_queue_length [OF that] by (simp add: init_def)
  ultimately show ?thesis
    using length_push [of q v] by blast
qed

theorem queue_never_exceeds_capacity_witness:
  "length (push (replicate 200 blank) blank) \<le> MAX_QUEUE_SIZE \<and>
   pop [blank] empty_Mat True = Some (True, blank, []) \<and>
   length (foldl apply_op [] [Push (1::nat), Pop 0 True, Pop 0 False, Push 2]) \<le> MAX_QUEUE_SIZE \<and>
   run (produce blank) (init 1) = Some ((init 1)\<lparr>queue := [blank], imagesGenerated := 1\<rparr>) \<and>
   length (queue ((init 1)\<lparr>queue := [blank], imagesGenerated := 1\<rparr>)) \<le> MAX_QUEUE_SIZE"
proof -
  have r: "run (produce blank) (init 1) =
    Some ((init 1)\<lparr>queue := [blank], imagesGenerated := 1\<rparr>)"
    by (simp add: produce_def init_def push_def push_cap_def MAX_QUEUE_SIZE_def fetch_add_def)
  have p: "pop [blank] empty_Mat True = Some (True, blank, [])"
    by (simp add: pop_def)
  show ?thesis
    using queue_never_exceeds_capacity
      [of "replicate 200 blank" blank empty_Mat True True blank "[]"
          "[Push (1::nat), Pop 0 True, Pop 0 False, Push 2]"]
      queue_never_exceeds_capacity
      [of "[blank]" blank empty_Mat True True blank "[]" "[]" "produce blank" 1
          "(init 1)\<lparr>queue := [blank], imagesGenerated := 1\<rparr>"]
      r p
    by (simp add: MAX_QUEUE_SIZE_def)
qed

section \<open>The counters\<close>

lemma sint_of_nat_small:
  assumes "k < 2 ^ 31"
  shows "sint (of_nat k :: int32) = int k"
proof -
  have "int k < 2 ^ 31" using assms by (metis of_nat_less_iff of_nat_numeral of_nat_power)
  then have "signed_take_bit 31 (int k) = int k"
    by (intro signed_take_bit_int_eq_self) simp_all
  then show ?thesis by (simp add: signed_of_nat)
qed

lemma of_nat_inj32:
  assumes "i < 2 ^ 32" "j < 2 ^ 32" "(of_nat i :: int32) = of_nat j"
  shows "i = j"
  using assms by (simp add: word_of_nat_eq_iff take_bit_nat_eq_self)

lemma unat_of_nat_small64:
  "k < 2 ^ 64 \<Longrightarrow> unat (of_nat k :: size_t) = k"
  by (simp add: unat_of_nat)

lemma run_counters_init:
  assumes "run es (init n) = Some s"
  shows "imagesGenerated s = of_nat (counted es)"
    and "imagesSaved s = of_nat (indexed es)"
    and "totalBytesWritten s = of_nat (total_bytes es)"
  using run_generated [OF assms] run_saved [OF assms] run_bytes [OF assms]
  by (simp_all add: init_def)

lemma counts_append:
  "counted (es @ fs) = counted es + counted fs"
  "indexed (es @ fs) = indexed es + indexed fs"
  "pushes (es @ fs) = pushes es + pushes fs"
  "total_bytes (es @ fs) = total_bytes es + total_bytes fs"
  by (simp_all add: counted_def indexed_def pushes_def total_bytes_def)

text \<open>
  Claim C7, amended. As long as no counter has wrapped around (each of \<open>imagesGenerated\<close>
  and \<open>imagesSaved\<close> has been incremented fewer than \<open>2^31\<close> times, and fewer than
  \<open>2^64\<close> bytes have been added to \<open>totalBytesWritten\<close>), no counter ever decreases, and
  once all threads have left their loops the saved count is at most the generated count.
  (Counters are compared as the program reads them: the two \<open>int\<close> counters signed, the
  \<open>size_t\<close> counter unsigned.)
\<close>
theorem counters_monotone_until_wrap:
  assumes "run es1 (init n) = Some s1" and "run es2 s1 = Some s2"
    and "counted (es1 @ es2) < 2 ^ 31" and "indexed (es1 @ es2) < 2 ^ 31"
    and "total_bytes (es1 @ es2) < 2 ^ 64"
  shows "sint (imagesGenerated s1) \<le> sint (imagesGenerated s2) \<and>
         sint (imagesSaved s1) \<le> sint (imagesSaved s2) \<and>
         totalBytesWritten s1 \<le> totalBytesWritten s2 \<and>
         (joined s2 \<longrightarrow> sint (imagesSaved s2) \<le> sint (imagesGenerated s2))"
proof -
  have r: "run (es1 @ es2) (init n) = Some s2"
    using assms(1,2) by (simp add: run_append)
  note c2 = assms(3) and i2 = assms(4) and b2 = assms(5)
  have c1: "counted es1 < 2 ^ 31" and i1: "indexed es1 < 2 ^ 31"
    using c2 i2 by (simp_all add: counts_append)
  have b1: "total_bytes es1 < 2 ^ 64"
    using b2 by (simp add: counts_append)
  have g1: "sint (imagesGenerated s1) = int (counted es1)"
    unfolding run_counters_init(1) [OF assms(1)] by (rule sint_of_nat_small [OF c1])
  have g2: "sint (imagesGenerated s2) = int (counted (es1 @ es2))"
    unfolding run_counters_init(1) [OF r] by (rule sint_of_nat_small [OF c2])
  have v1: "sint (imagesSaved s1) = int (indexed es1)"
    unfolding run_counters_init(2) [OF assms(1)] by (rule sint_of_nat_small [OF i1])
  have v2: "sint (imagesSaved s2) = int (indexed (es1 @ es2))"
    unfolding run_counters_init(2) [OF r] by (rule sint_of_nat_small [OF i2])
  have w1: "unat (totalBytesWritten s1) = total_bytes es1"
    unfolding run_counters_init(3) [OF assms(1)] by (rule unat_of_nat_small64 [OF b1])
  have w2: "unat (totalBytesWritten s2) = total_bytes (es1 @ es2)"
    unfolding run_counters_init(3) [OF r] by (rule unat_of_nat_small64 [OF b2])
  have "sint (imagesGenerated s1) \<le> sint (imagesGenerated s2)"
    unfolding g1 g2 by (simp add: counts_append)
  moreover have "sint (imagesSaved s1) \<le> sint (imagesSaved s2)"
    unfolding v1 v2 by (simp add: counts_append)
  moreover have "totalBytesWritten s1 \<le> totalBytesWritten s2"
    unfolding word_le_nat_alt w1 w2 by (simp add: counts_append)
  moreover have "sint (imagesSaved s2) \<le> sint (imagesGenerated s2)" if "joined s2"
    unfolding g2 v2 using joined_indexed_le_counted [OF r that] by simp
  ultimately show ?thesis by blast
qed

lemma run_produce:
  assumes "producer s = P_loop" "running s"
  shows "run (produce img) s =
    Some (s\<lparr>queue := push (queue s) img, imagesGenerated := imagesGenerated s + 1\<rparr>)"
  using assms by (simp add: produce_def fetch_add_def)

lemma run_produce_many:
  assumes "producer s = P_loop" "running s"
  shows "run (concat (replicate k (produce img))) s =
    Some (s\<lparr>queue := foldl push (queue s) (replicate k img),
            imagesGenerated := imagesGenerated s + of_nat k\<rparr>)"
  using assms
proof (induction k arbitrary: s)
  case 0
  then show ?case by simp
next
  case (Suc k)
  let ?s1 = "s\<lparr>queue := push (queue s) img, imagesGenerated := imagesGenerated s + 1\<rparr>"
  have "run (concat (replicate (Suc k) (produce img))) s =
      run (concat (replicate k (produce img))) ?s1"
    using run_produce [OF Suc.prems] by (simp add: run_append)
  also have "\<dots> = Some (?s1\<lparr>queue := foldl push (queue ?s1) (replicate k img),
            imagesGenerated := imagesGenerated ?s1 + of_nat k\<rparr>)"
    by (rule Suc.IH) (use Suc.prems in simp_all)
  finally show ?case by (simp add: add.assoc add.commute)
qed

lemma foldl_push_replicate:
  assumes "MAX_QUEUE_SIZE \<le> k"
  shows "foldl push [] (replicate k x) = replicate MAX_QUEUE_SIZE x"
proof -
  have "foldl push [] (replicate k x) = foldl (push_cap MAX_QUEUE_SIZE) [] (replicate k x)"
    by (simp add: push_def [abs_def])
  also have "\<dots> = drop (length (replicate k x) - MAX_QUEUE_SIZE) (replicate k x)"
    by (rule foldl_push_cap_last) (use assms in \<open>simp_all add: MAX_QUEUE_SIZE_def\<close>)
  also have "\<dots> = replicate MAX_QUEUE_SIZE x"
    using assms by simp
  finally show ?thesis .
qed

text \<open>
  Claim C7 as stated fails when the 32-bit counter wraps: after \<open>2147483647\<close> counted
  images the next \<open>fetch_add\<close> takes \<open>imagesGenerated\<close> to the most negative value.
\<close>

theorem counter_wraps_counterexample:
  "run (concat (replicate 2147483647 (produce blank))) (init 1) = Some before_wrap \<and>
   run (produce blank) before_wrap = Some after_wrap \<and>
   sint (imagesGenerated before_wrap) = 2147483647 \<and>
   sint (imagesGenerated after_wrap) = - 2147483648 \<and>
   \<not> sint (imagesGenerated before_wrap) \<le> sint (imagesGenerated after_wrap)"
proof -
  have "run (concat (replicate 2147483647 (produce blank))) (init 1) =
      Some ((init 1)\<lparr>queue := foldl push (queue (init 1)) (replicate 2147483647 blank),
            imagesGenerated := imagesGenerated (init 1) + of_nat 2147483647\<rparr>)"
    by (rule run_produce_many) (simp_all add: init_def)
  moreover have "foldl push [] (replicate 2147483647 blank) = replicate MAX_QUEUE_SIZE blank"
    by (rule foldl_push_replicate) (simp add: MAX_QUEUE_SIZE_def)
  ultimately have a: "run (concat (replicate 2147483647 (produce blank))) (init 1) = Some before_wrap"
    by (simp add: init_def before_wrap_def MAX_QUEUE_SIZE_def)
  have e: "replicate 200 blank = blank # replicate 199 blank"
    by (simp flip: replicate_Suc)
  then have "push (replicate 200 blank) blank = replicate 199 blank @ [blank]"
    by (simp add: push_def push_cap_def MAX_QUEUE_SIZE_def)
  also have "\<dots> = replicate 200 blank"
    unfolding e by (simp add: replicate_append_same)
  finally have p: "push (replicate 200 blank) blank = replicate 200 blank" .
  have b: "run (produce blank) before_wrap = Some after_wrap"
    using p by (simp add: run_produce before_wrap_def after_wrap_def)
  show ?thesis using a b by (simp add: before_wrap_def after_wrap_def)
qed

theorem counters_monotone_until_wrap_witness:
  "run (produce blank) (init 1) =
     Some ((init 1)\<lparr>queue := [blank], imagesGenerated := 1\<rparr>) \<and>
   run (consume 0 (Some [1, 2, 3]) True @ [MainStop, ProducerLoad, ConsumerPop 0])
       ((init 1)\<lparr>queue := [blank], imagesGenerated := 1\<rparr>) =
     Some \<lparr>queue = [], running = False, imagesGenerated = 1, imagesSaved = 1,
           totalBytesWritten = 3, producer = P_done, consumers = [W_done]\<rparr> \<and>
   joined \<lparr>queue = [], running = False, imagesGenerated = 1, imagesSaved = 1,
           totalBytesWritten = 3, producer = P_done, consumers = [W_done]\<rparr> \<and>
   sint (imagesSaved
     \<lparr>queue = [], running = False, imagesGenerated = 1, imagesSaved = 1,
      totalBytesWritten = 3, producer = P_done, consumers = [W_done]\<rparr>) \<le>
   sint (imagesGenerated
     \<lparr>queue = [], running = False, imagesGenerated = 1, imagesSaved = 1,
      totalBytesWritten = 3, producer = P_done, consumers = [W_done]\<rparr>)"
proof -
  let ?s1 = "(init 1)\<lparr>queue := [blank], imagesGenerated := 1\<rparr>"
  let ?s2 = "\<lparr>queue = [], running = False, imagesGenerated = 1, imagesSaved = 1,
           totalBytesWritten = 3, producer = P_done, consumers = [W_done]\<rparr>"
  let ?es2 = "consume 0 (Some [1, 2, 3]) True @ [MainStop, ProducerLoad, ConsumerPop 0]"
  have r1: "run (produce blank) (init 1) = Some ?s1"
    by (simp add: produce_def init_def push_def push_cap_def MAX_QUEUE_SIZE_def fetch_add_def)
  have r2: "run ?es2 ?s1 = Some ?s2"
    by (simp add: consume_def init_def pop_def fetch_add_def save_image_def)
  have c: "counted (produce blank @ ?es2) < 2 ^ 31"
    by (simp add: counted_def produce_def consume_def)
  have i: "indexed (produce blank @ ?es2) < 2 ^ 31"
    by (simp add: indexed_def produce_def consume_def)
  have t: "total_bytes (produce blank @ ?es2) < 2 ^ 64"
    by (simp add: total_bytes_def produce_def consume_def)
  have j: "joined ?s2" by (simp add: joined_def)
  show ?thesis
    using counters_monotone_until_wrap [OF r1 r2 c i t] r1 r2 j by simp
qed

section \<open>Indices and file names\<close>

lemma digit_char_inj:
  "a < 10 \<Longrightarrow> b < 10 \<Longrightarrow> digit_char a = digit_char b \<Longrightarrow> a = b"
  using nth_eq_iff_index_eq [of "''0123456789''" a b] by (simp add: digit_char_def)

lemma digit_char_not_minus: "a < 10 \<Longrightarrow> digit_char a \<noteq> CHR ''-''"
proof -
  assume "a < 10"
  then have "digit_char a \<in> set ''0123456789''"
    unfolding digit_char_def by (intro nth_mem) simp
  then show ?thesis by auto
qed

lemma dec_not_Nil: "dec n \<noteq> []"
  by (subst dec.simps) simp

lemma dec_no_minus: "CHR ''-'' \<notin> set (dec n)"
proof (induction n rule: dec.induct)
  case (1 n)
  show ?case
  proof (cases "n < 10")
    case True
    then show ?thesis
      using digit_char_not_minus [of n] by (subst dec.simps) auto
  next
    case False
    then show ?thesis
      using 1 digit_char_not_minus [of "n mod 10"] by (subst dec.simps) auto
  qed
qed

lemma dec_inj: "dec a = dec b \<Longrightarrow> a = b"
proof (induction a arbitrary: b rule: dec.induct)
  case (1 n)
  show ?case
  proof (cases "n < 10")
    case small_n: True
    show ?thesis
    proof (cases "b < 10")
      case True
      with small_n "1.prems" show ?thesis
        by (simp add: dec.simps [of n] dec.simps [of b] digit_char_inj)
    next
      case False
      with small_n "1.prems" dec_not_Nil [of "b div 10"] show ?thesis
        by (simp add: dec.simps [of n] dec.simps [of b] Cons_eq_append_conv)
    qed
  next
    case big_n: False
    show ?thesis
    proof (cases "b < 10")
      case True
      with big_n "1.prems" dec_not_Nil [of "n div 10"] show ?thesis
        by (simp add: dec.simps [of n] dec.simps [of b] append_eq_Cons_conv)
    next
      case False
      with big_n "1.prems" have parts: "dec (n div 10) = dec (b div 10)"
        "digit_char (n mod 10) = digit_char (b mod 10)"
        by (simp_all add: dec.simps [of n] dec.simps [of b])
      from "1.IH" [OF big_n parts(1)] have "n div 10 = b div 10" .
      moreover from parts(2) have "n mod 10 = b mod 10"
        by (intro digit_char_inj) simp_all
      ultimately show ?thesis
        by (metis div_mult_mod_eq)
    qed
  qed
qed

lemma to_string_inj: "to_string a = to_string b \<Longrightarrow> a = b"
proof -
  assume eq: "to_string a = to_string b"
  have neg: "hd (to_string i) = CHR ''-'' \<longleftrightarrow> i < 0" for i
  proof (cases "i < 0")
    case True
    then show ?thesis by (simp add: to_string_def)
  next
    case False
    have "hd (dec (nat i)) \<in> set (dec (nat i))"
      by (rule hd_in_set) (rule dec_not_Nil)
    with dec_no_minus [of "nat i"] have "hd (dec (nat i)) \<noteq> CHR ''-''" by metis
    with False show ?thesis by (simp add: to_string_def)
  qed
  from eq neg [of a] neg [of b] have same: "a < 0 \<longleftrightarrow> b < 0" by simp
  show ?thesis
  proof (cases "a < 0")
    case True
    with same eq have "dec (nat (- a)) = dec (nat (- b))" by (simp add: to_string_def)
    then have "nat (- a) = nat (- b)" by (rule dec_inj)
    with True same show ?thesis by simp
  next
    case False
    with same eq have "dec (nat a) = dec (nat b)" by (simp add: to_string_def)
    then have "nat a = nat b" by (rule dec_inj)
    with False same show ?thesis by simp
  qed
qed

lemma filename_inj: "filename a = filename b \<Longrightarrow> a = b"
proof -
  assume "filename a = filename b"
  then have "to_string (sint a) = to_string (sint b)"
    by (simp add: filename_def)
  then have "sint a = sint b" by (rule to_string_inj)
  then show ?thesis by (rule signed_word_eqI)
qed

lemma assigned_run:
  "run es s = Some s' \<Longrightarrow>
     assigned es s = map (\<lambda>k. imagesSaved s + of_nat k) [0..<indexed es]"
proof (induction es arbitrary: s)
  case Nil
  then show ?case by (simp add: indexed_def)
next
  case (Cons e es)
  then obtain s1 where s1: "step e s = Some s1" "run es s1 = Some s'"
    by (auto split: option.splits)
  note IH = Cons.IH [OF s1(2)]
  show ?case
  proof (cases "is_index e")
    case True
    then obtain i where e: "e = ConsumerFetchAdd i" by (cases e) simp_all
    have ix: "indexed (e # es) = Suc (indexed es)"
      using True by (simp add: indexed_def)
    have "assigned (e # es) s = imagesSaved s # assigned es s1"
      using s1(1) e by (simp add: fetch_add_def)
    also have "\<dots> = imagesSaved s # map (\<lambda>k. imagesSaved s + of_nat (Suc k)) [0..<indexed es]"
      using IH step_saved [OF s1(1)] True by (simp add: add.assoc add.commute)
    also have "\<dots> = map (\<lambda>k. imagesSaved s + of_nat k) [0..<Suc (indexed es)]"
      unfolding map_upt_Suc by simp
    finally show ?thesis unfolding ix .
  next
    case False
    then have ix: "indexed (e # es) = indexed es" by (simp add: indexed_def)
    have "assigned (e # es) s = assigned es s1"
      using s1(1) False by (cases e) simp_all
    with IH step_saved [OF s1(1)] False ix show ?thesis by simp
  qed
qed

lemma distinct_indices:
  assumes "k \<le> 2 ^ 32"
  shows "distinct (map (\<lambda>j. c + (of_nat j :: int32)) [0..<k])"
proof -
  have "inj_on (\<lambda>j. c + (of_nat j :: int32)) (set [0..<k])"
  proof (rule inj_onI)
    fix x y
    assume "x \<in> set [0..<k]" "y \<in> set [0..<k]" "c + (of_nat x :: int32) = c + of_nat y"
    with assms show "x = y" by (intro of_nat_inj32) simp_all
  qed
  then show ?thesis by (simp add: distinct_map)
qed

text \<open>
  Claim C8, amended. Every index is what the atomic \<open>fetch_add\<close> on \<open>imagesSaved\<close> returned:
  the indices handed out in a run are \<open>0, 1, 2, \<dots>\<close> in order. As long as at most \<open>2^32\<close>
  of them have been handed out, they are pairwise distinct and so are the file names built
  from them.
\<close>
theorem indices_distinct_until_wrap:
  assumes "run es (init n) = Some s" and "indexed es \<le> 2 ^ 32"
  shows "assigned es (init n) = map of_nat [0..<indexed es] \<and>
         distinct (assigned es (init n)) \<and>
         distinct (map filename (assigned es (init n)))"
proof -
  have a: "assigned es (init n) = map (\<lambda>k. 0 + of_nat k) [0..<indexed es]"
    using assigned_run [OF assms(1)] by (simp add: init_def)
  have d: "distinct (assigned es (init n))"
    unfolding a by (rule distinct_indices [OF assms(2)])
  have "inj_on filename (set (assigned es (init n)))"
    by (rule inj_onI) (rule filename_inj)
  with d have "distinct (map filename (assigned es (init n)))"
    by (simp add: distinct_map)
  with a d show ?thesis by simp
qed

lemma run_turn:
  "run (produce img @ consume 0 enc opened) (idle g v w) =
     Some (idle (g + 1) (v + 1) (save_image enc opened w))"
  by (simp add: produce_def consume_def idle_def push_def push_cap_def MAX_QUEUE_SIZE_def
      pop_def fetch_add_def)

lemma run_turns:
  "run (concat (replicate k (produce img @ consume 0 enc opened))) (idle g v w) =
     Some (idle (g + of_nat k) (v + of_nat k) ((save_image enc opened ^^ k) w))"
proof (induction k arbitrary: g v w)
  case 0
  show ?case by simp
next
  case (Suc k)
  have "run (concat (replicate (Suc k) (produce img @ consume 0 enc opened))) (idle g v w) =
      run (concat (replicate k (produce img @ consume 0 enc opened)))
        (idle (g + 1) (v + 1) (save_image enc opened w))"
    using run_turn [of img enc opened g v w]
    by (simp add: run_append del: append_assoc)
  then show ?case
    unfolding Suc.IH by (simp add: funpow_swap1 ac_simps)
qed

lemma indexed_turns:
  "indexed (concat (replicate k (produce img @ consume 0 enc opened))) = k"
  by (induction k) (simp_all add: counts_append, simp_all add: indexed_def produce_def consume_def)

text \<open>
  Claim C8 as stated fails when the 32-bit counter has gone round: in a run of
  \<open>4294967297\<close> rounds the last image gets index 0, as the first did.
\<close>

theorem index_repeats_counterexample:
  "run (concat (replicate 4294967297 turn)) (init 1) \<noteq> None \<and>
   length (assigned (concat (replicate 4294967297 turn)) (init 1)) = 4294967297 \<and>
   assigned (concat (replicate 4294967297 turn)) (init 1) ! 0 = 0 \<and>
   assigned (concat (replicate 4294967297 turn)) (init 1) ! 4294967296 = 0 \<and>
   \<not> distinct (assigned (concat (replicate 4294967297 turn)) (init 1))"
proof -
  let ?es = "concat (replicate 4294967297 turn)"
  have i: "init 1 = idle 0 0 0"
    by (simp add: init_def idle_def)
  obtain s where r: "run ?es (init 1) = Some s"
    unfolding i turn_def using run_turns by blast
  have n: "indexed ?es = 4294967297"
    unfolding turn_def by (rule indexed_turns)
  have a: "assigned ?es (init 1) = map (\<lambda>k. 0 + of_nat k) [0..<4294967297]"
    using assigned_run [OF r] unfolding n by (simp add: init_def)
  have len: "length (assigned ?es (init 1)) = 4294967297"
    unfolding a by simp
  have first: "assigned ?es (init 1) ! 0 = 0"
    unfolding a by (subst nth_map) simp_all
  have again: "assigned ?es (init 1) ! 4294967296 = 0"
    unfolding a by (subst nth_map) simp_all
  have "\<not> distinct (assigned ?es (init 1))"
  proof
    assume d: "distinct (assigned ?es (init 1))"
    have lt: "0 < length (assigned ?es (init 1))" "4294967296 < length (assigned ?es (init 1))"
      unfolding len by simp_all
    have "(assigned ?es (init 1) ! 0 = assigned ?es (init 1) ! 4294967296) =
        ((0::nat) = 4294967296)"
      by (rule nth_eq_iff_index_eq [OF d lt])
    then show False
      unfolding first again by simp
  qed
  with r len first again show ?thesis by simp
qed

theorem indices_distinct_until_wrap_witness:
  "run (produce blank @ consume 0 None False @ produce blank @ consume 0 (Some [7]) True) (init 1) =
     Some (idle 2 2 1) \<and>
   assigned (produce blank @ consume 0 None False @ produce blank @ consume 0 (Some [7]) True)
     (init 1) = [0, 1] \<and>
   map filename [0, 1] = [''../output/img_0.jpg'', ''../output/img_1.jpg'']"
proof -
  let ?es = "produce blank @ consume 0 None False @ produce blank @ consume 0 (Some [7]) True"
  have r: "run ?es (init 1) = Some (idle 2 2 1)"
    by (simp add: produce_def consume_def idle_def init_def push_def push_cap_def
        MAX_QUEUE_SIZE_def pop_def fetch_add_def save_image_def)
  have n: "indexed ?es \<le> 2 ^ 32"
    by (simp add: indexed_def produce_def consume_def)
  have i: "indexed ?es = 2"
    by (simp add: indexed_def produce_def consume_def)
  have f: "map filename [0, 1] = [''../output/img_0.jpg'', ''../output/img_1.jpg'']"
    by (simp add: filename_def outputDir_def to_string_def dec.simps digit_char_def)
  have u: "[0..<2] = [0, 1]" by (simp add: upt_rec)
  show ?thesis
    using indices_distinct_until_wrap [OF r n] r f unfolding i u by simp
qed

section \<open>Saving an image\<close>

text \<open>
  Claim C10. The step in which a consumer encodes and writes adds exactly the buffer's size
  to \<open>totalBytesWritten\<close> (modulo \<open>2^64\<close>, so exactly as a number when the sum stays
  below \<open>2^64\<close>) when \<open>imencode\<close> succeeded and the file opened, and leaves the counter
  unchanged when either failed. The consumer's other steps do not change it.
\<close>
theorem bytes_added_only_on_successful_save:
  "(step (ConsumerSave i enc opened) s = Some s' \<longrightarrow>
      (\<forall>buffer. enc = Some buffer \<and> opened \<longrightarrow>
         totalBytesWritten s' = totalBytesWritten s + of_nat (length buffer) \<and>
         (unat (totalBytesWritten s) + length buffer < 2 ^ 64 \<longrightarrow>
            unat (totalBytesWritten s') = unat (totalBytesWritten s) + length buffer)) \<and>
      (enc = None \<or> \<not> opened \<longrightarrow> totalBytesWritten s' = totalBytesWritten s)) \<and>
   (step (ConsumerPop i) s = Some s' \<longrightarrow> totalBytesWritten s' = totalBytesWritten s) \<and>
   (step (ConsumerFetchAdd i) s = Some s' \<longrightarrow> totalBytesWritten s' = totalBytesWritten s)"
proof -
  have exact: "unat (w + of_nat k) = unat w + k" if "unat w + k < 2 ^ 64" for w :: size_t and k
  proof -
    from that have k: "k < 2 ^ 64" by simp
    then have "unat (of_nat k :: size_t) = k" by (rule unat_of_nat_small64)
    with that show ?thesis by (simp add: unat_word_ariths)
  qed
  have save: "totalBytesWritten s' = totalBytesWritten s + of_nat (bytes_of (ConsumerSave i enc opened))"
    if "step (ConsumerSave i enc opened) s = Some s'"
    using that by (rule step_bytes)
  have pop: "totalBytesWritten s' = totalBytesWritten s" if "step (ConsumerPop i) s = Some s'"
    using step_bytes [OF that] by simp
  have idx: "totalBytesWritten s' = totalBytesWritten s" if "step (ConsumerFetchAdd i) s = Some s'"
    using step_bytes [OF that] by simp
  show ?thesis
  proof (intro conjI impI allI)
    fix buffer
    assume "step (ConsumerSave i enc opened) s = Some s'" "enc = Some buffer \<and> opened"
    with save show a: "totalBytesWritten s' = totalBytesWritten s + of_nat (length buffer)"
      by simp
    assume "unat (totalBytesWritten s) + length buffer < 2 ^ 64"
    then show "unat (totalBytesWritten s') = unat (totalBytesWritten s) + length buffer"
      unfolding a by (rule exact)
  next
    assume "step (ConsumerSave i enc opened) s = Some s'" "enc = None \<or> \<not> opened"
    with save show "totalBytesWritten s' = totalBytesWritten s"
      by (cases enc; cases opened) auto
  qed (use pop idx in auto)
qed

theorem bytes_added_only_on_successful_save_witness:
  "step (ConsumerSave 0 (Some [255, 216, 255, 217]) True)
     ((idle 1 1 0)\<lparr>consumers := [W_sink blank (filename 0)]\<rparr>) = Some (idle 1 1 4) \<and>
   step (ConsumerSave 0 None True)
     ((idle 1 1 0)\<lparr>consumers := [W_sink blank (filename 0)]\<rparr>) = Some (idle 1 1 0) \<and>
   step (ConsumerSave 0 (Some [255, 216, 255, 217]) False)
     ((idle 1 1 0)\<lparr>consumers := [W_sink blank (filename 0)]\<rparr>) = Some (idle 1 1 0) \<and>
   totalBytesWritten (idle 1 1 4) = totalBytesWritten (idle 1 1 0) + 4 \<and>
   unat (totalBytesWritten (idle 1 1 4)) = 4"
proof -
  let ?s = "(idle 1 1 0)\<lparr>consumers := [W_sink blank (filename 0)]\<rparr>"
  have a: "step (ConsumerSave 0 (Some [255, 216, 255, 217]) True) ?s = Some (idle 1 1 4)"
    by (simp add: idle_def save_image_def fetch_add_def)
  have b: "step (ConsumerSave 0 None True) ?s = Some (idle 1 1 0)"
    by (simp add: idle_def save_image_def)
  have c: "step (ConsumerSave 0 (Some [255, 216, 255, 217]) False) ?s = Some (idle 1 1 0)"
    by (simp add: idle_def save_image_def)
  show ?thesis
    using bytes_added_only_on_successful_save
      [of 0 "Some [255, 216, 255, 217]" True ?s "idle 1 1 4"]
      bytes_added_only_on_successful_save [of 0 None True ?s "idle 1 1 0"]
      bytes_added_only_on_successful_save
      [of 0 "Some [255, 216, 255, 217]" False ?s "idle 1 1 0"]
      a b c
    by (simp add: idle_def)
qed

text \<open>
  Claim C1 against the code. A consumer takes its index from \<open>imagesSaved\<close> before it
  encodes and writes, so an image whose encoding fails, or whose file does not open, is
  counted in \<open>imagesSaved\<close> all the same; only \<open>totalBytesWritten\<close> depends on success.
  Here one image is produced and its save fails: the run ends with \<open>imagesSaved = 1\<close>.
\<close>
theorem failed_save_still_counted_as_saved:
  "run (produce blank @ consume 0 None False) (init 1) = Some (idle 1 1 0) \<and>
   run (produce blank @ consume 0 (Some [255, 216, 255, 217]) False) (init 1) =
     Some (idle 1 1 0) \<and>
   imagesGenerated (idle 1 1 0) = 1 \<and>
   imagesSaved (idle 1 1 0) = 1 \<and>
   totalBytesWritten (idle 1 1 0) = 0"
proof -
  have i: "init 1 = idle 0 0 0"
    by (simp add: init_def idle_def)
  show ?thesis
    unfolding i run_turn by (simp add: save_image_def, simp add: idle_def)
qed

section \<open>Pacing\<close>

lemma interval_ms_pos: "0 < R \<Longrightarrow> interval_ms R = 1000 div R"
  by (simp add: interval_ms_def cdiv_def)

text \<open>
  Claim C5, amended. For a rate \<open>R > 0\<close> the tick interval is \<open>1000 div R\<close> whole
  milliseconds: one second divided by \<open>R\<close>, rounded down to a millisecond. It is exactly
  a second divided by \<open>R\<close> if and only if \<open>R\<close> divides 1000. Each iteration waits for its
  own start time plus that interval, and does not end before it.
\<close>

theorem tick_interval_is_truncated_milliseconds:
  assumes "0 < R"
  shows "interval_ms R = 1000 div R \<and>
         R * interval_ms R \<le> 1000 \<and> 1000 < R * (interval_ms R + 1) \<and>
         (R * interval R = second_ns \<longleftrightarrow> R dvd 1000) \<and>
         wake_time R start = start + ns_of_ms (1000 div R) \<and>
         wake_time R start \<le> iteration_end R start work"
proof -
  have m: "interval_ms R = 1000 div R"
    using assms by (rule interval_ms_pos)
  have split: "1000 = R * (1000 div R) + 1000 mod R"
    by simp
  have rem: "0 \<le> 1000 mod R" "1000 mod R < R"
    using assms by simp_all
  have lo: "R * (1000 div R) \<le> 1000"
    using split rem(1) by linarith
  have "1000 < R * (1000 div R) + R"
    using split rem(2) by linarith
  then have hi: "1000 < R * (1000 div R + 1)"
    by (simp add: distrib_left)
  have "R * (1000 div R) = 1000 \<longleftrightarrow> 1000 mod R = 0"
    using split by linarith
  also have "\<dots> \<longleftrightarrow> R dvd 1000"
    by (simp add: dvd_eq_mod_eq_0)
  finally have ex: "R * interval R = second_ns \<longleftrightarrow> R dvd 1000"
    by (simp add: interval_def ns_of_ms_def second_ns_def m)
  show ?thesis
    using lo hi ex by (simp add: m wake_time_def iteration_end_def interval_def)
qed

theorem tick_interval_is_truncated_milliseconds_witness:
  "(0::int) < 50 \<and> interval_ms 50 = 20 \<and> 50 * interval 50 = second_ns \<and>
   interval_ms 3 = 333 \<and> wake_time 3 1000 = 333001000"
  using tick_interval_is_truncated_milliseconds [of 50 1000 0]
    tick_interval_is_truncated_milliseconds [of 3 1000 0]
  by (simp add: ns_of_ms_def)

text \<open>
  Claim C5 as stated fails at 3 images per second: the interval is 333 ms, and three of
  them are not a second. Above 1000 images per second the interval is zero.
\<close>

theorem tick_interval_not_exact_counterexample:
  "interval 3 = 333000000 \<and> 3 * interval 3 \<noteq> second_ns \<and> interval 2000 = 0"
  by (simp add: interval_def interval_ms_def cdiv_def ns_of_ms_def second_ns_def)

section \<open>Start-up\<close>

text \<open>
  Claim C6, amended. \<open>main\<close> spawns threads if and only if it was given three arguments,
  the duration is positive, the rate is positive, the consumer count is between 1 and 7, and
  preparing the output directory does not throw. Then it spawns the producer and that many
  consumers. On any violation of the configuration it returns 1 and no thread has started,
  whatever the file system does. With a valid configuration and a directory that cannot be
  prepared, the program is terminated and no thread has started either.
\<close>

theorem run_starts_iff_config_valid_and_directory_ready:
  "(0 < threads_spawned (main atoi fs argv) \<longleftrightarrow>
      length argv = 4 \<and> 0 < atoi (argv ! 1) \<and> 0 < atoi (argv ! 2) \<and>
      1 \<le> atoi (argv ! 3) \<and> atoi (argv ! 3) \<le> 7 \<and> prepare_output fs) \<and>
   (length argv = 4 \<and> 0 < atoi (argv ! 1) \<and> 0 < atoi (argv ! 2) \<and>
      1 \<le> atoi (argv ! 3) \<and> atoi (argv ! 3) \<le> 7 \<and> prepare_output fs \<longrightarrow>
        main atoi fs argv =
          Inr \<lparr>DURATION_SECONDS = atoi (argv ! 1), TARGET_FPS = atoi (argv ! 2),
               NUM_CONSUMERS = atoi (argv ! 3)\<rparr> \<and>
        threads_spawned (main atoi fs argv) = 1 + nat (atoi (argv ! 3))) \<and>
   (\<not> (length argv = 4 \<and> 0 < atoi (argv ! 1) \<and> 0 < atoi (argv ! 2) \<and>
      1 \<le> atoi (argv ! 3) \<and> atoi (argv ! 3) \<le> 7) \<longrightarrow>
        (\<exists>e. main atoi fs argv = Inl e \<and> exit_code e = Some 1) \<and>
        threads_spawned (main atoi fs argv) = 0) \<and>
   (length argv = 4 \<and> 0 < atoi (argv ! 1) \<and> 0 < atoi (argv ! 2) \<and>
      1 \<le> atoi (argv ! 3) \<and> atoi (argv ! 3) \<le> 7 \<and> \<not> prepare_output fs \<longrightarrow>
        main atoi fs argv = Inl DirectoryFailed \<and>
        threads_spawned (main atoi fs argv) = 0)"
  by (auto simp: main_def threads_spawned_def Let_def)

theorem run_starts_iff_config_valid_and_directory_ready_witness:
  "main (atoi_table [(''300'', 300), (''50'', 50), (''7'', 7)]) writable_fs
      [''./main'', ''300'', ''50'', ''7''] =
     Inr \<lparr>DURATION_SECONDS = 300, TARGET_FPS = 50, NUM_CONSUMERS = 7\<rparr> \<and>
   threads_spawned
     (main (atoi_table [(''300'', 300), (''50'', 50), (''7'', 7)]) writable_fs
        [''./main'', ''300'', ''50'', ''7'']) = 8 \<and>
   main (atoi_table [(''300'', 300), (''50'', 50), (''8'', 8)]) writable_fs
      [''./main'', ''300'', ''50'', ''8''] = Inl TooManyConsumers \<and>
   exit_code TooManyConsumers = Some 1 \<and>
   threads_spawned
     (main (atoi_table [(''300'', 300), (''50'', 50), (''8'', 8)]) writable_fs
        [''./main'', ''300'', ''50'', ''8'']) = 0 \<and>
   main (atoi_table [(''0'', 0), (''50'', 50), (''7'', 7)]) readonly_fs
      [''./main'', ''0'', ''50'', ''7''] = Inl NotPositive \<and>
   main (atoi_table [(''300'', 300), (''50'', 50), (''7'', 7)]) readonly_fs
      [''./main'', ''300'', ''50'', ''7''] = Inl DirectoryFailed"
  using run_starts_iff_config_valid_and_directory_ready
      [of "atoi_table [(''300'', 300), (''50'', 50), (''7'', 7)]" writable_fs
          "[''./main'', ''300'', ''50'', ''7'']"]
    run_starts_iff_config_valid_and_directory_ready
      [of "atoi_table [(''300'', 300), (''50'', 50), (''8'', 8)]" writable_fs
          "[''./main'', ''300'', ''50'', ''8'']"]
    run_starts_iff_config_valid_and_directory_ready
      [of "atoi_table [(''0'', 0), (''50'', 50), (''7'', 7)]" readonly_fs
          "[''./main'', ''0'', ''50'', ''7'']"]
    run_starts_iff_config_valid_and_directory_ready
      [of "atoi_table [(''300'', 300), (''50'', 50), (''7'', 7)]" readonly_fs
          "[''./main'', ''300'', ''50'', ''7'']"]
  by (simp add: main_def atoi_table_def prepare_output_def writable_fs_def readonly_fs_def)

text \<open>
  Claim C6 as stated fails when the output directory cannot be prepared: the three values
  300, 50 and 7 are valid, \<open>fs::create_directories\<close> throws, and the program is
  terminated with no thread started.
\<close>

theorem valid_config_without_directory_counterexample:
  "0 < atoi_table [(''300'', 300), (''50'', 50), (''7'', 7)] ''300'' \<and>
   0 < atoi_table [(''300'', 300), (''50'', 50), (''7'', 7)] ''50'' \<and>
   1 \<le> atoi_table [(''300'', 300), (''50'', 50), (''7'', 7)] ''7'' \<and>
   atoi_table [(''300'', 300), (''50'', 50), (''7'', 7)] ''7'' \<le> 7 \<and>
   prepare_output readonly_fs = False \<and>
   main (atoi_table [(''300'', 300), (''50'', 50), (''7'', 7)]) readonly_fs
      [''./main'', ''300'', ''50'', ''7''] = Inl DirectoryFailed \<and>
   threads_spawned
     (main (atoi_table [(''300'', 300), (''50'', 50), (''7'', 7)]) readonly_fs
        [''./main'', ''300'', ''50'', ''7'']) = 0"
  by (simp add: main_def threads_spawned_def atoi_table_def prepare_output_def readonly_fs_def)

end
